theory Spec2Isabelle
  imports Main "HOL-Library.Word"
begin

section \<open>Bytes, memory views and faults\<close>

text \<open>
  The header \<^verbatim>\<open>stim/io/measure_record_batch_writer.h\<close> moves raw bytes
  (\<^verbatim>\<open>uint8_t\<close>) between a bit buffer and a vector of record writers.
  A buffer is the list of its bytes and a pointer into it is an offset. Sizes and offsets
  are natural numbers; the header computes them in \<^verbatim>\<open>size_t\<close>, and the two agree as
  long as every product stays below \<open>2\<^sup>6\<^sup>4\<close>, which is the case for every offset that
  lies inside a buffer. Calls with larger counts are outside of what is modelled here.
  C++ gives no meaning to a read outside the buffer; the model returns the fault
  \<open>OutOfBounds\<close> there, so that every such read is a branch of its own.
\<close>

type_synonym byte = "8 word"

datatype fault = OutOfBounds

text \<open>The span \<^verbatim>\<open>{p, n}\<close> of a buffer: the bytes from offset \<open>p\<close> up to, not including, offset \<open>n\<close>.\<close>

definition span :: "byte list \<Rightarrow> nat \<Rightarrow> nat \<Rightarrow> fault + byte list" where
  "span buf p n = (if p \<le> n \<and> n \<le> length buf then Inr (take (n - p) (drop p buf)) else Inl OutOfBounds)"

text \<open>
  Modelled from the spec: the bit reference \<^verbatim>\<open>bits[k]\<close> of \<^verbatim>\<open>simd_bits_range_ref\<close>
  (declared in \<^verbatim>\<open>stim/mem\<close>, not among the sources). Section 6 fixes the packing: bit \<open>i\<close> of
  byte \<open>b\<close> is the bit at offset \<open>8b + i\<close>.
\<close>

definition bit_at :: "byte list \<Rightarrow> nat \<Rightarrow> fault + bool" where
  "bit_at bits k = (if k div 8 < length bits then Inr (bit (bits ! (k div 8)) (k mod 8)) else Inl OutOfBounds)"

section \<open>The bit table\<close>

text \<open>
  Modelled from the spec: \<^verbatim>\<open>simd_bit_table<W>\<close> (declared in \<^verbatim>\<open>stim/mem/simd_bit_table.h\<close>,
  not among the sources). Section 6 gives what the header consumes: the padded byte stride of
  one major unit, the raw byte buffer, and \<^verbatim>\<open>transposed()\<close>. The table stores
  one row per major index, each row \<open>num_simd_words_minor\<close> words of \<open>W\<close> bits;
  \<open>W\<close> is the template parameter.
\<close>

record simd_bit_table =
  num_simd_words_major :: nat
  num_simd_words_minor :: nat
  data :: "byte list"

definition num_minor_u8_padded :: "nat \<Rightarrow> simd_bit_table \<Rightarrow> nat" where
  "num_minor_u8_padded W t = num_simd_words_minor t * (W div 8)"

definition num_major_u8_padded :: "nat \<Rightarrow> simd_bit_table \<Rightarrow> nat" where
  "num_major_u8_padded W t = num_simd_words_major t * (W div 8)"

definition num_minor_bits_padded :: "nat \<Rightarrow> simd_bit_table \<Rightarrow> nat" where
  "num_minor_bits_padded W t = num_simd_words_minor t * W"

definition num_major_bits_padded :: "nat \<Rightarrow> simd_bit_table \<Rightarrow> nat" where
  "num_major_bits_padded W t = num_simd_words_major t * W"

text \<open>The bit at major index \<open>maj\<close> and minor index \<open>mnr\<close>: bit \<open>mnr\<close> of row \<open>maj\<close>.\<close>

definition table_bit :: "nat \<Rightarrow> simd_bit_table \<Rightarrow> nat \<Rightarrow> nat \<Rightarrow> bool" where
  "table_bit W t maj mnr = bit (data t ! (maj * num_minor_u8_padded W t + mnr div 8)) (mnr mod 8)"

text \<open>A byte from its eight bits, lowest first.\<close>

definition byte_of_bits :: "bool list \<Rightarrow> byte" where
  "byte_of_bits bs = horner_sum of_bool 2 bs"

text \<open>
  \<^verbatim>\<open>transposed()\<close>: a fresh table with the two dimensions exchanged, whose bit
  \<open>(i, j)\<close> is the bit \<open>(j, i)\<close> of the original.
\<close>

definition transposed :: "nat \<Rightarrow> simd_bit_table \<Rightarrow> simd_bit_table" where
  "transposed W t =
     \<lparr> num_simd_words_major = num_simd_words_minor t,
       num_simd_words_minor = num_simd_words_major t,
       data = concat (map (\<lambda>i. map (\<lambda>b. byte_of_bits (map (\<lambda>j. table_bit W t (8 * b + j) i) [0..<8]))
                                    [0..<num_major_u8_padded W t])
                          [0..<num_minor_bits_padded W t]) \<rparr>"

text \<open>\<^verbatim>\<open>table[k].u8\<close>: the offset of row \<open>k\<close> in the table's buffer.\<close>

definition row_u8 :: "nat \<Rightarrow> simd_bit_table \<Rightarrow> nat \<Rightarrow> nat" where
  "row_u8 W t k = k * num_minor_u8_padded W t"

section \<open>The batch writer\<close>

text \<open>
  Modelled from the spec: the enumeration \<^verbatim>\<open>SampleFormat\<close> (declared elsewhere in
  \<^verbatim>\<open>stim/io\<close>). The header tests for one enumerator, \<open>SAMPLE_FORMAT_PTB64\<close>
  (the spec's \<^verbatim>\<open>TRANSPOSED_PACKED_64\<close>); the spec names one more, \<^verbatim>\<open>SERIAL\<close>;
  any further enumerator is \<open>SAMPLE_FORMAT_OTHER\<close> with its number.
\<close>

datatype SampleFormat = SAMPLE_FORMAT_PTB64 | SAMPLE_FORMAT_SERIAL | SAMPLE_FORMAT_OTHER nat

text \<open>
  \<^verbatim>\<open>MeasureRecordWriter\<close> is an abstract class outside the sources. All the header does
  with a writer is call it, so a writer is modelled by the calls it receives.
\<close>

datatype writer_call =
    BeginResultType char
  | WriteBit bool
  | WriteBytes "byte list"
  | WriteEnd

text \<open>
  The state of \<^verbatim>\<open>MeasureRecordBatchWriter\<close> as far as the header reads and changes it:
  the format, the number of writers (\<^verbatim>\<open>writers.size()\<close>) and the journal of every
  call made on a writer so far, oldest first, each with the index of the writer called.
\<close>

record MeasureRecordBatchWriter =
  output_format :: SampleFormat
  num_writers :: nat
  journal :: "(nat \<times> writer_call) list"

text \<open>The calls writer \<open>k\<close> has received, in order.\<close>

definition received :: "MeasureRecordBatchWriter \<Rightarrow> nat \<Rightarrow> writer_call list" where
  "received st k = map snd (filter (\<lambda>e. fst e = k) (journal st))"

definition call :: "nat \<Rightarrow> writer_call \<Rightarrow> MeasureRecordBatchWriter \<Rightarrow> MeasureRecordBatchWriter" where
  "call k c st = st\<lparr>journal := journal st @ [(k, c)]\<rparr>"

text \<open>\<^verbatim>\<open>writers[k]->write_bytes({p, n})\<close> on a buffer, and \<^verbatim>\<open>writers[k]->write_bit(bits[j])\<close>.\<close>

definition writer_write_bytes ::
  "nat \<Rightarrow> byte list \<Rightarrow> nat \<Rightarrow> nat \<Rightarrow> MeasureRecordBatchWriter \<Rightarrow> fault + MeasureRecordBatchWriter" where
  "writer_write_bytes k buf p n st =
     (case span buf p n of Inl e \<Rightarrow> Inl e | Inr d \<Rightarrow> Inr (call k (WriteBytes d) st))"

definition writer_write_bit ::
  "nat \<Rightarrow> byte list \<Rightarrow> nat \<Rightarrow> MeasureRecordBatchWriter \<Rightarrow> fault + MeasureRecordBatchWriter" where
  "writer_write_bit k bits j st =
     (case bit_at bits j of Inl e \<Rightarrow> Inl e | Inr b \<Rightarrow> Inr (call k (WriteBit b) st))"

text \<open>A \<^verbatim>\<open>for\<close> loop over a list of indices; a fault ends it.\<close>

fun for_each :: "'a list \<Rightarrow> ('a \<Rightarrow> 's \<Rightarrow> fault + 's) \<Rightarrow> 's \<Rightarrow> fault + 's" where
  "for_each [] body s = Inr s"
| "for_each (x # xs) body s = (case body x s of Inl e \<Rightarrow> Inl e | Inr s' \<Rightarrow> for_each xs body s')"

subsection \<open>\<^verbatim>\<open>batch_write_bit\<close>\<close>

text \<open>
  The packed branch walks a pointer \<open>p\<close> through the row, eight bytes per writer;
  the loop state is the pointer together with the writer state.
\<close>

definition batch_write_bit ::
  "MeasureRecordBatchWriter \<Rightarrow> byte list \<Rightarrow> fault + MeasureRecordBatchWriter" where
  "batch_write_bit st bits =
     (if output_format st = SAMPLE_FORMAT_PTB64 then
        (case for_each [0..<num_writers st]
                (\<lambda>k (p, s). let n = p + 8 in
                   (case writer_write_bytes k bits p n s of Inl e \<Rightarrow> Inl e | Inr s' \<Rightarrow> Inr (n, s')))
                (0, st)
         of Inl e \<Rightarrow> Inl e | Inr (p, s) \<Rightarrow> Inr s)
      else
        for_each [0..<num_writers st] (\<lambda>k s. writer_write_bit k bits k s) st)"

subsection \<open>\<^verbatim>\<open>batch_write_bytes\<close>\<close>

definition batch_write_bytes ::
  "nat \<Rightarrow> MeasureRecordBatchWriter \<Rightarrow> simd_bit_table \<Rightarrow> nat \<Rightarrow> fault + MeasureRecordBatchWriter" where
  "batch_write_bytes W st table num_major_u64 =
     (if output_format st = SAMPLE_FORMAT_PTB64 then
        for_each [0..<num_writers st] (\<lambda>k.
          for_each [0..<num_major_u64] (\<lambda>w s.
            let p = k * 8 + num_minor_u8_padded W table * w in
            writer_write_bytes k (data table) p (p + 8) s)) st
      else
        (let transposed_table = transposed W table in
         for_each [0..<num_writers st] (\<lambda>k s.
           let p = row_u8 W transposed_table k in
           writer_write_bytes k (data transposed_table) p (p + num_major_u64 * 8) s) st))"

subsection \<open>What a writer records\<close>

text \<open>
  Modelled from the spec: the samples a \<^verbatim>\<open>MeasureRecordWriter\<close> (the spec's StreamWriter,
  outside the sources) records on a call. A per-bit append records one sample; a bulk
  append records eight samples per byte, bit \<open>i\<close> of byte \<open>b\<close> being sample \<open>8b + i\<close>
  (sections 4.4 and 6: \<open>num_major_u64 * 8\<close> bytes are \<open>num_major_u64 * 64\<close> bits);
  a section tag and the final call record none.
\<close>

fun samples :: "writer_call \<Rightarrow> bool list" where
  "samples (WriteBit b) = [b]"
| "samples (WriteBytes bs) = concat (map (\<lambda>x. map (bit x) [0..<8]) bs)"
| "samples (BeginResultType c) = []"
| "samples WriteEnd = []"

definition recorded :: "MeasureRecordBatchWriter \<Rightarrow> nat \<Rightarrow> bool list" where
  "recorded st k = concat (map samples (received st k))"

definition sample_count :: "MeasureRecordBatchWriter \<Rightarrow> nat \<Rightarrow> nat" where
  "sample_count st k = length (recorded st k)"

text \<open>\<^verbatim>\<open>table[m]\<close>: the bytes of row \<open>m\<close> of a table, as a range of its buffer.\<close>

definition table_row :: "nat \<Rightarrow> simd_bit_table \<Rightarrow> nat \<Rightarrow> byte list" where
  "table_row W t m = take (num_minor_u8_padded W t) (drop (row_u8 W t m) (data t))"

section \<open>Sections, the producer's calls and the final concatenation\<close>

text \<open>
  Modelled from the spec: \<^verbatim>\<open>begin_result_type\<close>, which the header declares and does not
  define. Section 4.2: the tag is delegated to every writer, in ascending index order.
\<close>

definition begin_result_type :: "MeasureRecordBatchWriter \<Rightarrow> char \<Rightarrow> MeasureRecordBatchWriter" where
  "begin_result_type st result_type =
     st\<lparr>journal := journal st @ map (\<lambda>k. (k, BeginResultType result_type)) [0..<num_writers st]\<rparr>"

text \<open>What a producer can ask of an open batch writer (the state machine of section 4.5).\<close>

datatype batch_op =
    Begin_result_type char
  | Batch_write_bit "byte list"
  | Batch_write_bytes nat simd_bit_table nat

fun run_op :: "MeasureRecordBatchWriter \<Rightarrow> batch_op \<Rightarrow> fault + MeasureRecordBatchWriter" where
  "run_op st (Begin_result_type c) = Inr (begin_result_type st c)"
| "run_op st (Batch_write_bit bits) = batch_write_bit st bits"
| "run_op st (Batch_write_bytes W table num_major_u64) = batch_write_bytes W st table num_major_u64"

definition run_ops :: "MeasureRecordBatchWriter \<Rightarrow> batch_op list \<Rightarrow> fault + MeasureRecordBatchWriter" where
  "run_ops st ops = for_each ops (\<lambda>op s. run_op s op) st"

text \<open>
  Modelled from the spec: the writers' side of a call. A StreamWriter owns its framing
  (section 2); what it appends to its channel on a call can depend on every call it has
  received before, and on nothing else. A framing gives these bytes from the calls
  received so far and the call made.
\<close>

type_synonym framing = "writer_call list \<Rightarrow> writer_call \<Rightarrow> byte list"

text \<open>
  Modelled from the spec: the channels behind the writers (section 3). Writer 0 is bound
  to the output channel \<open>out\<close>; writer \<open>k > 0\<close> is bound to its own spill resource,
  \<open>temporary_files ! (k - 1)\<close>. \<open>writers ! k\<close> holds the calls writer \<open>k\<close> has received.
\<close>

record files =
  out :: "byte list"
  temporary_files :: "byte list list"
  writers :: "writer_call list list"

text \<open>
  Modelled from the spec: the constructor (section 4.1), which the header declares and does
  not define: \<open>N\<close> writers, \<open>N - 1\<close> empty spill resources, nothing written.
\<close>

definition open_files :: "nat \<Rightarrow> files" where
  "open_files N = \<lparr>out = [], temporary_files = replicate (N - 1) [], writers = replicate N []\<rparr>"

definition open_writer :: "SampleFormat \<Rightarrow> nat \<Rightarrow> MeasureRecordBatchWriter" where
  "open_writer fmt N = \<lparr>output_format = fmt, num_writers = N, journal = []\<rparr>"

text \<open>One call on writer \<open>k\<close>: the writer appends its bytes to the channel it is bound to.\<close>

definition deliver :: "framing \<Rightarrow> nat \<times> writer_call \<Rightarrow> files \<Rightarrow> files" where
  "deliver emit e fs =
     (let k = fst e; c = snd e in
      if k < length (writers fs) then
        (let bs = emit (writers fs ! k) c;
             fs' = fs\<lparr>writers := (writers fs)[k := writers fs ! k @ [c]]\<rparr>
         in if k = 0 then fs'\<lparr>out := out fs' @ bs\<rparr>
            else fs'\<lparr>temporary_files := (temporary_files fs')[k - 1 := temporary_files fs' ! (k - 1) @ bs]\<rparr>)
      else fs)"

text \<open>
  Modelled from the spec: \<^verbatim>\<open>write_end\<close>, which the header declares and does not define.
  Section 4.5: every writer is finalised; then, in writer-index order \<open>1..N-1\<close>, the
  content of each spill resource is copied onto the output channel; then the spill
  resources are released.
\<close>

definition write_end :: "framing \<Rightarrow> files \<Rightarrow> files" where
  "write_end emit fs =
     (let fs1 = fold (deliver emit) (map (\<lambda>k. (k, WriteEnd)) [0..<length (writers fs)]) fs;
          fs2 = fold (\<lambda>f s. s\<lparr>out := out s @ f\<rparr>) (temporary_files fs1) fs1
      in fs2\<lparr>temporary_files := []\<rparr>)"

text \<open>
  The bytes on the output channel after a sequence of producer calls and \<^verbatim>\<open>write_end\<close>,
  on a batch writer built for \<open>N\<close> writers.
\<close>

definition batch_output :: "framing \<Rightarrow> SampleFormat \<Rightarrow> nat \<Rightarrow> batch_op list \<Rightarrow> fault + byte list" where
  "batch_output emit fmt N ops =
     (case run_ops (open_writer fmt N) ops of
        Inl e \<Rightarrow> Inl e
      | Inr st \<Rightarrow> Inr (out (write_end emit (fold (deliver emit) (journal st) (open_files N)))))"

text \<open>
  The reference of section 8: every one of the \<open>N\<close> writers, writer 0 too, writes to a
  buffer of its own, and the buffers are concatenated afterwards. \<open>framed_from\<close> is the
  content of the buffer of one writer that has the calls \<open>seen\<close> behind it and receives \<open>cs\<close>.
\<close>

fun framed_from :: "framing \<Rightarrow> writer_call list \<Rightarrow> writer_call list \<Rightarrow> byte list" where
  "framed_from emit seen [] = []"
| "framed_from emit seen (c # cs) = emit seen c @ framed_from emit (seen @ [c]) cs"

definition framed :: "framing \<Rightarrow> writer_call list \<Rightarrow> byte list" where
  "framed emit cs = framed_from emit [] cs"

definition reference_output :: "framing \<Rightarrow> SampleFormat \<Rightarrow> nat \<Rightarrow> batch_op list \<Rightarrow> fault + byte list" where
  "reference_output emit fmt N ops =
     (case run_ops (open_writer fmt N) ops of
        Inl e \<Rightarrow> Inl e
      | Inr st \<Rightarrow> Inr (concat (map (\<lambda>k. framed emit (received st k @ [WriteEnd])) [0..<N])))"

text \<open>
  An example of a framing, for concrete runs: one character per sample, \<open>0\<close> or \<open>1\<close>,
  and a line feed at the end of the record.
\<close>

fun framing_01 :: framing where
  "framing_01 seen (WriteBit b) = [if b then 49 else 48]"
| "framing_01 seen (WriteBytes bs) = map (\<lambda>b. if b then 49 else 48) (samples (WriteBytes bs))"
| "framing_01 seen (BeginResultType c) = []"
| "framing_01 seen WriteEnd = [10]"

section \<open>Loops that append to the journal\<close>

lemma for_each_append:
  "for_each (xs @ ys) body s = (case for_each xs body s of Inl e \<Rightarrow> Inl e | Inr s' \<Rightarrow> for_each ys body s')"
  by (induction xs arbitrary: s) (auto split: sum.splits)

lemma for_each_journal:
  assumes "\<And>k s. body k s = (if ok k then Inr (s\<lparr>journal := journal s @ ev k\<rparr>) else Inl OutOfBounds)"
  shows "for_each ks body st =
    (if list_all ok ks then Inr (st\<lparr>journal := journal st @ concat (map ev ks)\<rparr>) else Inl OutOfBounds)"
  by (induction ks arbitrary: st) (simp_all add: assms)

lemma writer_write_bit_eq:
  "writer_write_bit k bits j s =
    (if j div 8 < length bits then Inr (s\<lparr>journal := journal s @ [(k, WriteBit (bit (bits ! (j div 8)) (j mod 8)))]\<rparr>)
     else Inl OutOfBounds)"
  by (simp add: writer_write_bit_def bit_at_def call_def)

lemma writer_write_bytes_eq:
  "writer_write_bytes k buf p n s =
    (if p \<le> n \<and> n \<le> length buf then Inr (s\<lparr>journal := journal s @ [(k, WriteBytes (take (n - p) (drop p buf)))]\<rparr>)
     else Inl OutOfBounds)"
  by (simp add: writer_write_bytes_def span_def call_def)

lemma ptb64_bit_loop:
  "for_each [0..<N]
      (\<lambda>k (p, s). let n = p + 8 in
         (case writer_write_bytes k bits p n s of Inl e \<Rightarrow> Inl e | Inr s' \<Rightarrow> Inr (n, s')))
      (0, st) =
   (if 8 * N \<le> length bits
    then Inr (8 * N, st\<lparr>journal := journal st @ map (\<lambda>k. (k, WriteBytes (take 8 (drop (8 * k) bits)))) [0..<N]\<rparr>)
    else Inl OutOfBounds)"
  by (induction N) (auto simp: for_each_append writer_write_bytes_eq Let_def)

lemma list_all_upt_div8: "list_all (\<lambda>k. k div 8 < L) [0..<N] \<longleftrightarrow> N \<le> 8 * L"
proof (induction N)
  case 0
  then show ?case by simp
next
  case (Suc N)
  have "N div 8 < L \<longleftrightarrow> N < L * 8"
    by (rule div_less_iff_less_mult) simp
  with Suc show ?case by auto
qed

lemma concat_singletons: "concat (map (\<lambda>k. [f k]) ks) = map f ks"
  by (induction ks) simp_all

lemma batch_write_bit_serial_eq:
  assumes "output_format st \<noteq> SAMPLE_FORMAT_PTB64"
  shows "batch_write_bit st bits =
    (if num_writers st \<le> 8 * length bits
     then Inr (st\<lparr>journal := journal st @
                 map (\<lambda>k. (k, WriteBit (bit (bits ! (k div 8)) (k mod 8)))) [0..<num_writers st]\<rparr>)
     else Inl OutOfBounds)"
proof -
  have "for_each [0..<num_writers st] (\<lambda>k s. writer_write_bit k bits k s) st =
    (if list_all (\<lambda>k. k div 8 < length bits) [0..<num_writers st]
     then Inr (st\<lparr>journal := journal st @
        concat (map (\<lambda>k. [(k, WriteBit (bit (bits ! (k div 8)) (k mod 8)))]) [0..<num_writers st])\<rparr>)
     else Inl OutOfBounds)"
    by (rule for_each_journal) (simp add: writer_write_bit_eq)
  with assms show ?thesis
    by (simp add: batch_write_bit_def list_all_upt_div8 concat_singletons)
qed

lemma batch_write_bit_ptb64_eq:
  assumes "output_format st = SAMPLE_FORMAT_PTB64"
  shows "batch_write_bit st bits =
    (if 8 * num_writers st \<le> length bits
     then Inr (st\<lparr>journal := journal st @
                 map (\<lambda>k. (k, WriteBytes (take 8 (drop (8 * k) bits)))) [0..<num_writers st]\<rparr>)
     else Inl OutOfBounds)"
  using assms by (simp add: batch_write_bit_def ptb64_bit_loop)

lemma received_append:
  "received (st\<lparr>journal := journal st @ evs\<rparr>) k = received st k @ map snd (filter (\<lambda>e. fst e = k) evs)"
  by (simp add: received_def)

lemma filter_fan_out:
  "filter (\<lambda>e. fst e = k) (map (\<lambda>i. (i, f i)) [0..<N]) = (if k < N then [(k, f k)] else [])"
  by (induction N) auto

lemma received_fan_out:
  "received (st\<lparr>journal := journal st @ map (\<lambda>i. (i, f i)) [0..<N]\<rparr>) k =
     (if k < N then received st k @ [f k] else received st k)"
  by (simp add: received_append filter_fan_out)

section \<open>Samples of a byte group\<close>

lemma samples_bytes_length: "length (samples (WriteBytes bs)) = 8 * length bs"
  by (induction bs) simp_all

lemma samples_bytes_nth:
  "j < 8 * length bs \<Longrightarrow> samples (WriteBytes bs) ! j = bit (bs ! (j div 8)) (j mod 8)"
proof (induction bs arbitrary: j)
  case Nil
  then show ?case by simp
next
  case (Cons x bs)
  show ?case
  proof (cases "j < 8")
    case True
    then show ?thesis by (simp add: nth_append)
  next
    case False
    then obtain i where j: "j = i + 8"
      by (metis le_add_diff_inverse2 not_less)
    with Cons.prems have "i < 8 * length bs" by simp
    from Cons.IH [OF this] have "samples (WriteBytes bs) ! i = bit (bs ! (i div 8)) (i mod 8)" .
    moreover have "(i + 8) div 8 = Suc (i div 8)" "(i + 8) mod 8 = i mod 8"
      using div_add_self2 [of 8 i] mod_add_self2 [of i 8] by simp_all
    ultimately show ?thesis unfolding j by (simp add: nth_append)
  qed
qed

lemma div_mod_64:
  fixes k j :: nat
  shows "(64 * k + j) div 8 = 8 * k + j div 8" and "(64 * k + j) mod 8 = j mod 8"
proof -
  show "(64 * k + j) div 8 = 8 * k + j div 8"
    using div_mult_self2 [of 8 j "8 * k"] by (simp add: add.commute)
  show "(64 * k + j) mod 8 = j mod 8"
    using mod_mult_self2 [of j 8 "8 * k"] by (simp add: add.commute)
qed

lemma samples_group:
  assumes "8 * k + 8 \<le> length bits"
  shows "samples (WriteBytes (take 8 (drop (8 * k) bits))) =
         map (\<lambda>j. bit (bits ! ((64 * k + j) div 8)) ((64 * k + j) mod 8)) [0..<64]"
proof (rule nth_equalityI)
  from assms have len: "length (take 8 (drop (8 * k) bits)) = 8" by simp
  show "length (samples (WriteBytes (take 8 (drop (8 * k) bits)))) =
        length (map (\<lambda>j. bit (bits ! ((64 * k + j) div 8)) ((64 * k + j) mod 8)) [0..<64])"
    unfolding samples_bytes_length len by simp
  fix j assume "j < length (samples (WriteBytes (take 8 (drop (8 * k) bits))))"
  then have j: "j < 64" unfolding samples_bytes_length len by simp
  then have "j < 8 * length (take 8 (drop (8 * k) bits))" unfolding len by simp
  then have "samples (WriteBytes (take 8 (drop (8 * k) bits))) ! j =
             bit (take 8 (drop (8 * k) bits) ! (j div 8)) (j mod 8)"
    by (rule samples_bytes_nth)
  moreover have "j div 8 < 8" using j by simp
  ultimately show "samples (WriteBytes (take 8 (drop (8 * k) bits))) ! j =
     map (\<lambda>j. bit (bits ! ((64 * k + j) div 8)) ((64 * k + j) mod 8)) [0..<64] ! j"
    using j assms by (simp add: div_mod_64)
qed

section \<open>Closed forms of \<^verbatim>\<open>batch_write_bytes\<close>\<close>

lemma batch_write_bytes_ptb64_eq:
  assumes "output_format st = SAMPLE_FORMAT_PTB64"
  shows "batch_write_bytes W st table n =
    (if list_all (\<lambda>k. list_all (\<lambda>w. k * 8 + num_minor_u8_padded W table * w + 8 \<le> length (data table)) [0..<n])
          [0..<num_writers st]
     then Inr (st\<lparr>journal := journal st @
            concat (map (\<lambda>k. map (\<lambda>w. (k, WriteBytes (take 8 (drop (k * 8 + num_minor_u8_padded W table * w) (data table)))))
                               [0..<n]) [0..<num_writers st])\<rparr>)
     else Inl OutOfBounds)"
proof -
  let ?p = "\<lambda>k w. k * 8 + num_minor_u8_padded W table * w"
  let ?inner = "\<lambda>k. for_each [0..<n] (\<lambda>w s. let p = ?p k w in writer_write_bytes k (data table) p (p + 8) s)"
  have inner: "?inner k s =
      (if list_all (\<lambda>w. ?p k w + 8 \<le> length (data table)) [0..<n]
       then Inr (s\<lparr>journal := journal s @
              map (\<lambda>w. (k, WriteBytes (take 8 (drop (?p k w) (data table))))) [0..<n]\<rparr>)
       else Inl OutOfBounds)" for k s
  proof -
    have "?inner k s =
      (if list_all (\<lambda>w. ?p k w + 8 \<le> length (data table)) [0..<n]
       then Inr (s\<lparr>journal := journal s @
              concat (map (\<lambda>w. [(k, WriteBytes (take 8 (drop (?p k w) (data table))))]) [0..<n])\<rparr>)
       else Inl OutOfBounds)"
      by (rule for_each_journal) (simp add: writer_write_bytes_eq Let_def)
    then show ?thesis by (simp only: concat_singletons)
  qed
  have "for_each [0..<num_writers st] ?inner st =
    (if list_all (\<lambda>k. list_all (\<lambda>w. ?p k w + 8 \<le> length (data table)) [0..<n]) [0..<num_writers st]
     then Inr (st\<lparr>journal := journal st @
            concat (map (\<lambda>k. map (\<lambda>w. (k, WriteBytes (take 8 (drop (?p k w) (data table))))) [0..<n])
                        [0..<num_writers st])\<rparr>)
     else Inl OutOfBounds)"
    by (rule for_each_journal) (rule inner)
  with assms show ?thesis by (simp only: batch_write_bytes_def simp_thms if_True)
qed

lemma batch_write_bytes_serial_eq:
  assumes "output_format st \<noteq> SAMPLE_FORMAT_PTB64"
  shows "batch_write_bytes W st table n =
    (if list_all (\<lambda>k. row_u8 W (transposed W table) k + n * 8 \<le> length (data (transposed W table)))
          [0..<num_writers st]
     then Inr (st\<lparr>journal := journal st @
            map (\<lambda>k. (k, WriteBytes (take (n * 8) (drop (row_u8 W (transposed W table) k) (data (transposed W table))))))
                [0..<num_writers st]\<rparr>)
     else Inl OutOfBounds)"
proof -
  let ?t = "transposed W table"
  have "for_each [0..<num_writers st]
          (\<lambda>k s. let p = row_u8 W ?t k in writer_write_bytes k (data ?t) p (p + n * 8) s) st =
    (if list_all (\<lambda>k. row_u8 W ?t k + n * 8 \<le> length (data ?t)) [0..<num_writers st]
     then Inr (st\<lparr>journal := journal st @
            concat (map (\<lambda>k. [(k, WriteBytes (take (n * 8) (drop (row_u8 W ?t k) (data ?t))))])
                [0..<num_writers st])\<rparr>)
     else Inl OutOfBounds)"
    by (rule for_each_journal) (simp add: writer_write_bytes_eq Let_def)
  with assms show ?thesis by (simp only: batch_write_bytes_def simp_thms if_False Let_def concat_singletons)
qed

section \<open>The transposed table\<close>

lemma concat_rows_length:
  assumes "\<And>i. length (f i) = n"
  shows "length (concat (map f [0..<m])) = m * n"
  by (induction m) (simp_all add: assms)

lemma concat_rows_drop:
  assumes "\<And>i. length (f i) = n" and "i < m"
  shows "drop (i * n) (concat (map f [0..<m])) = concat (map f [i..<m])"
  using assms(2)
proof (induction m)
  case 0
  then show ?case by simp
next
  case (Suc m)
  show ?case
  proof (cases "i = m")
    case True
    then show ?thesis by (simp add: concat_rows_length [of f n, OF assms(1)])
  next
    case False
    with Suc.prems have im: "i < m" by simp
    then have "i * n \<le> m * n" by simp
    with Suc.IH [OF im] im show ?thesis
      by (simp add: concat_rows_length [of f n, OF assms(1)])
  qed
qed

lemma concat_rows_take:
  assumes "\<And>i. length (f i) = n" and "i < m" and "c \<le> n"
  shows "take c (drop (i * n) (concat (map f [0..<m]))) = take c (f i)"
proof -
  have "[i..<m] = i # [Suc i..<m]" using assms(2) by (simp add: upt_conv_Cons)
  then have "concat (map f [i..<m]) = f i @ concat (map f [Suc i..<m])" by simp
  then show ?thesis
    using assms by (simp add: concat_rows_drop [of f n, OF assms(1)])
qed

lemma num_minor_u8_padded_transposed:
  "num_minor_u8_padded W (transposed W t) = num_major_u8_padded W t"
  by (simp add: num_minor_u8_padded_def num_major_u8_padded_def transposed_def)

lemma length_data_transposed:
  "length (data (transposed W t)) = num_minor_bits_padded W t * num_major_u8_padded W t"
  by (simp add: transposed_def concat_rows_length)

lemma transposed_row:
  assumes "k < num_minor_bits_padded W t" and "c \<le> num_major_u8_padded W t"
  shows "take c (drop (row_u8 W (transposed W t) k) (data (transposed W t))) =
         map (\<lambda>b. byte_of_bits (map (\<lambda>j. table_bit W t (8 * b + j) k) [0..<8])) [0..<c]"
proof -
  let ?row = "\<lambda>i. map (\<lambda>b. byte_of_bits (map (\<lambda>j. table_bit W t (8 * b + j) i) [0..<8]))
                     [0..<num_major_u8_padded W t]"
  have len: "\<And>i. length (?row i) = num_major_u8_padded W t" by simp
  have "take c (drop (k * num_major_u8_padded W t) (concat (map ?row [0..<num_minor_bits_padded W t]))) =
        take c (?row k)"
    using len assms by (rule concat_rows_take)
  also have "\<dots> = map (\<lambda>b. byte_of_bits (map (\<lambda>j. table_bit W t (8 * b + j) k) [0..<8])) [0..<c]"
    using assms(2) by (simp add: take_map min_def)
  finally show ?thesis
    by (simp add: row_u8_def num_minor_u8_padded_transposed) (simp add: transposed_def)
qed

lemma bit_byte_of_bits:
  "i < 8 \<Longrightarrow> bit (byte_of_bits (map f [0..<8])) i = f i"
  by (simp add: byte_of_bits_def bit_horner_sum_bit_word_iff)

lemma samples_transposed_row:
  assumes "k < num_minor_bits_padded W t" and "c \<le> num_major_u8_padded W t"
  shows "samples (WriteBytes (take c (drop (row_u8 W (transposed W t) k) (data (transposed W t))))) =
         map (\<lambda>j. table_bit W t j k) [0..<8 * c]"
proof (rule nth_equalityI)
  let ?run = "map (\<lambda>b. byte_of_bits (map (\<lambda>j. table_bit W t (8 * b + j) k) [0..<8])) [0..<c]"
  have run: "take c (drop (row_u8 W (transposed W t) k) (data (transposed W t))) = ?run"
    using assms by (rule transposed_row)
  show "length (samples (WriteBytes (take c (drop (row_u8 W (transposed W t) k) (data (transposed W t)))))) =
        length (map (\<lambda>j. table_bit W t j k) [0..<8 * c])"
    unfolding run samples_bytes_length by simp
  fix j assume "j < length (samples (WriteBytes (take c (drop (row_u8 W (transposed W t) k) (data (transposed W t))))))"
  then have j: "j < 8 * c" unfolding run samples_bytes_length by simp
  then have jc: "j div 8 < c" by simp
  have "samples (WriteBytes ?run) ! j = bit (?run ! (j div 8)) (j mod 8)"
    by (rule samples_bytes_nth) (use j in simp)
  also have "\<dots> = bit (byte_of_bits (map (\<lambda>i. table_bit W t (8 * (j div 8) + i) k) [0..<8])) (j mod 8)"
    using jc by simp
  also have "\<dots> = table_bit W t (8 * (j div 8) + j mod 8) k"
    by (rule bit_byte_of_bits) simp
  also have "\<dots> = table_bit W t j k" by simp
  finally show "samples (WriteBytes (take c (drop (row_u8 W (transposed W t) k) (data (transposed W t))))) ! j =
        map (\<lambda>j. table_bit W t j k) [0..<8 * c] ! j"
    unfolding run using j by simp
qed

lemma transposed_rows_in_range:
  assumes "N \<le> num_minor_bits_padded W t" and "c \<le> num_major_u8_padded W t"
  shows "list_all (\<lambda>k. row_u8 W (transposed W t) k + c \<le> length (data (transposed W t))) [0..<N]"
proof -
  have "k * num_major_u8_padded W t + c \<le> num_minor_bits_padded W t * num_major_u8_padded W t"
    if "k < N" for k
  proof -
    from that assms(1) have "Suc k \<le> num_minor_bits_padded W t" by simp
    then have "Suc k * num_major_u8_padded W t \<le> num_minor_bits_padded W t * num_major_u8_padded W t"
      by (rule mult_le_mono1)
    with assms(2) show ?thesis by simp
  qed
  then show ?thesis
    by (simp add: list_all_iff row_u8_def num_minor_u8_padded_transposed length_data_transposed)
qed

section \<open>Claims about \<^verbatim>\<open>batch_write_bit\<close>\<close>

text \<open>
  C7. Under the SERIAL format, \<^verbatim>\<open>batch_write_bit(row)\<close> with \<open>N\<close> writers goes through
  the writer indices \<open>k = 0..N-1\<close> in ascending order and passes the single bit at row
  offset \<open>k\<close> to writer \<open>k\<close>'s per-bit append: the journal grows by exactly the calls
  \<open>(0, WriteBit b\<^sub>0), \<dots>, (N-1, WriteBit b\<^bsub>N-1\<^esub>)\<close> in this order, \<open>b\<^sub>k\<close> being bit
  \<open>k mod 8\<close> of byte \<open>k div 8\<close> of the row. The call stays inside the row exactly when
  the row has a bit for every writer.
\<close>

theorem batch_write_bit_serial_fan_out:
  assumes "output_format st = SAMPLE_FORMAT_SERIAL"
  shows "batch_write_bit st bits =
    (if num_writers st \<le> 8 * length bits
     then Inr (st\<lparr>journal := journal st @
                 map (\<lambda>k. (k, WriteBit (bit (bits ! (k div 8)) (k mod 8)))) [0..<num_writers st]\<rparr>)
     else Inl OutOfBounds)"
  using assms by (simp add: batch_write_bit_serial_eq)

theorem batch_write_bit_serial_fan_out_witness:
  "batch_write_bit \<lparr>output_format = SAMPLE_FORMAT_SERIAL, num_writers = 2, journal = []\<rparr>
       [1, 0, 0, 0, 0, 0, 0, 0] =
   Inr \<lparr>output_format = SAMPLE_FORMAT_SERIAL, num_writers = 2,
        journal = [(0, WriteBit True), (1, WriteBit False)]\<rparr>"
  using batch_write_bit_serial_fan_out
    [of "\<lparr>output_format = SAMPLE_FORMAT_SERIAL, num_writers = 2, journal = []\<rparr>"
        "[1, 0, 0, 0, 0, 0, 0, 0]"]
  by (simp add: upt_rec)

text \<open>
  C10. Under \<open>SAMPLE_FORMAT_PTB64\<close>, \<^verbatim>\<open>batch_write_bit(bits)\<close> reads eight bytes per
  writer and delivers the bytes \<open>[8k, 8k+8)\<close> of the row to writer \<open>k\<close>. The call stays in
  bounds exactly when the row holds at least \<open>8 * N\<close> bytes, \<open>N\<close> the number of writers.
  The samples writer \<open>k\<close> gets are the 64 bits at offsets \<open>64k .. 64k+63\<close> of the row,
  not the one bit at offset \<open>k\<close> that the doc comment of the method speaks of.
\<close>

theorem batch_write_bit_ptb64_eight_bytes_per_writer:
  assumes "output_format st = SAMPLE_FORMAT_PTB64"
  shows "batch_write_bit st bits =
      (if 8 * num_writers st \<le> length bits
       then Inr (st\<lparr>journal := journal st @
                   map (\<lambda>k. (k, WriteBytes (take 8 (drop (8 * k) bits)))) [0..<num_writers st]\<rparr>)
       else Inl OutOfBounds)
    \<and> ((\<exists>st'. batch_write_bit st bits = Inr st') \<longleftrightarrow> 8 * num_writers st \<le> length bits)
    \<and> (\<forall>k<num_writers st. 8 * num_writers st \<le> length bits \<longrightarrow>
          samples (WriteBytes (take 8 (drop (8 * k) bits))) =
          map (\<lambda>j. bit (bits ! ((64 * k + j) div 8)) ((64 * k + j) mod 8)) [0..<64])"
proof (intro conjI allI impI)
  show eq: "batch_write_bit st bits =
      (if 8 * num_writers st \<le> length bits
       then Inr (st\<lparr>journal := journal st @
                   map (\<lambda>k. (k, WriteBytes (take 8 (drop (8 * k) bits)))) [0..<num_writers st]\<rparr>)
       else Inl OutOfBounds)"
    using assms by (rule batch_write_bit_ptb64_eq)
  show "(\<exists>st'. batch_write_bit st bits = Inr st') \<longleftrightarrow> 8 * num_writers st \<le> length bits"
    unfolding eq by simp
next
  fix k assume "k < num_writers st" "8 * num_writers st \<le> length bits"
  then have "8 * k + 8 \<le> length bits" by simp
  then show "samples (WriteBytes (take 8 (drop (8 * k) bits))) =
          map (\<lambda>j. bit (bits ! ((64 * k + j) div 8)) ((64 * k + j) mod 8)) [0..<64]"
    by (rule samples_group)
qed

theorem batch_write_bit_ptb64_eight_bytes_per_writer_witness:
  "batch_write_bit \<lparr>output_format = SAMPLE_FORMAT_PTB64, num_writers = 2, journal = []\<rparr>
       [1, 2, 3, 4, 5, 6, 7, 8, 9, 10, 11, 12, 13, 14, 15, 16] =
   Inr \<lparr>output_format = SAMPLE_FORMAT_PTB64, num_writers = 2,
        journal = [(0, WriteBytes [1, 2, 3, 4, 5, 6, 7, 8]),
                   (1, WriteBytes [9, 10, 11, 12, 13, 14, 15, 16])]\<rparr>
   \<and> batch_write_bit \<lparr>output_format = SAMPLE_FORMAT_PTB64, num_writers = 2, journal = []\<rparr>
       [1, 2, 3, 4, 5, 6, 7, 8] = Inl OutOfBounds"
  using batch_write_bit_ptb64_eight_bytes_per_writer
    [of "\<lparr>output_format = SAMPLE_FORMAT_PTB64, num_writers = 2, journal = []\<rparr>"
        "[1, 2, 3, 4, 5, 6, 7, 8, 9, 10, 11, 12, 13, 14, 15, 16]", THEN conjunct1]
    batch_write_bit_ptb64_eight_bytes_per_writer
    [of "\<lparr>output_format = SAMPLE_FORMAT_PTB64, num_writers = 2, journal = []\<rparr>"
        "[1, 2, 3, 4, 5, 6, 7, 8]", THEN conjunct1]
  by (simp add: upt_rec)





section \<open>Claims about \<^verbatim>\<open>batch_write_bytes\<close>\<close>


text \<open>
  C6. Under the SERIAL format, \<^verbatim>\<open>batch_write_bytes(table, num_major_u64)\<close> transposes the
  table and then gives every writer \<open>k\<close> exactly one bulk append: the \<open>num_major_u64 * 8\<close>
  bytes at the start of row \<open>k\<close> of the transposed table. On a table whose minor dimension
  covers the writers and whose major extent covers \<open>num_major_u64 * 64\<close> samples the call
  returns, the writers are served in ascending order, and the \<open>num_major_u64 * 64\<close> bits
  of writer \<open>k\<close>'s run are the table's bits at minor index \<open>k\<close> and major indices
  \<open>0, 1, \<dots>\<close> in this order.
\<close>

theorem batch_write_bytes_serial_one_append_per_writer:
  assumes "output_format st = SAMPLE_FORMAT_SERIAL"
    and "num_writers st \<le> num_minor_bits_padded W table"
    and "num_major_u64 * 8 \<le> num_major_u8_padded W table"
  shows "batch_write_bytes W st table num_major_u64 =
      Inr (st\<lparr>journal := journal st @
             map (\<lambda>k. (k, WriteBytes (take (num_major_u64 * 8)
                            (drop (row_u8 W (transposed W table) k) (data (transposed W table))))))
                 [0..<num_writers st]\<rparr>)
    \<and> (\<forall>k<num_writers st.
          received (projr (batch_write_bytes W st table num_major_u64)) k =
            received st k @ [WriteBytes (take (num_major_u64 * 8)
                               (drop (row_u8 W (transposed W table) k) (data (transposed W table))))]
        \<and> length (take (num_major_u64 * 8)
              (drop (row_u8 W (transposed W table) k) (data (transposed W table)))) = num_major_u64 * 8
        \<and> samples (WriteBytes (take (num_major_u64 * 8)
              (drop (row_u8 W (transposed W table) k) (data (transposed W table))))) =
            map (\<lambda>j. table_bit W table j k) [0..<num_major_u64 * 64])"
proof -
  have fmt: "output_format st \<noteq> SAMPLE_FORMAT_PTB64" using assms(1) by simp
  have ok: "list_all (\<lambda>k. row_u8 W (transposed W table) k + num_major_u64 * 8
                \<le> length (data (transposed W table))) [0..<num_writers st]"
    using assms(2,3) by (rule transposed_rows_in_range)
  have eq: "batch_write_bytes W st table num_major_u64 =
      Inr (st\<lparr>journal := journal st @
             map (\<lambda>k. (k, WriteBytes (take (num_major_u64 * 8)
                            (drop (row_u8 W (transposed W table) k) (data (transposed W table))))))
                 [0..<num_writers st]\<rparr>)"
    using ok by (simp only: batch_write_bytes_serial_eq [OF fmt] if_True)
  have run: "length (take (num_major_u64 * 8)
              (drop (row_u8 W (transposed W table) k) (data (transposed W table)))) = num_major_u64 * 8
        \<and> samples (WriteBytes (take (num_major_u64 * 8)
              (drop (row_u8 W (transposed W table) k) (data (transposed W table))))) =
            map (\<lambda>j. table_bit W table j k) [0..<num_major_u64 * 64]"
    if "k < num_writers st" for k
  proof -
    from that assms(2) have k: "k < num_minor_bits_padded W table" by simp
    have "samples (WriteBytes (take (num_major_u64 * 8)
              (drop (row_u8 W (transposed W table) k) (data (transposed W table))))) =
            map (\<lambda>j. table_bit W table j k) [0..<8 * (num_major_u64 * 8)]"
      using k assms(3) by (rule samples_transposed_row)
    moreover have "length (take (num_major_u64 * 8)
              (drop (row_u8 W (transposed W table) k) (data (transposed W table)))) = num_major_u64 * 8"
      unfolding transposed_row [OF k assms(3)] by simp
    moreover have "8 * (num_major_u64 * 8) = num_major_u64 * 64" by simp
    ultimately show ?thesis by (simp only: simp_thms)
  qed
  show ?thesis
    unfolding eq using run by (simp add: received_fan_out del: samples.simps)
qed

text \<open>
  C8. \<^verbatim>\<open>batch_write_bytes(table, 0)\<close> appends nothing to any writer and leaves the visible
  state as it was. Under the packed format nothing is called at all. Under any other
  format the table is transposed and each writer is handed an empty byte range, which
  adds no sample; the call returns on every table whose minor dimension covers the
  writers, and whenever it returns, the format, the number of writers and every
  writer's recorded samples are unchanged.
\<close>

theorem batch_write_bytes_zero_blocks:
  "(output_format st = SAMPLE_FORMAT_PTB64 \<longrightarrow> batch_write_bytes W st table 0 = Inr st)
   \<and> (num_writers st \<le> num_minor_bits_padded W table \<longrightarrow>
        (\<exists>st'. batch_write_bytes W st table 0 = Inr st'))
   \<and> (\<forall>st'. batch_write_bytes W st table 0 = Inr st' \<longrightarrow>
        output_format st' = output_format st \<and> num_writers st' = num_writers st
        \<and> (\<forall>k. recorded st' k = recorded st k \<and> sample_count st' k = sample_count st k))"
proof (cases "output_format st = SAMPLE_FORMAT_PTB64")
  case True
  then have "batch_write_bytes W st table 0 = Inr st"
    by (simp add: batch_write_bytes_ptb64_eq list_all_iff)
  then show ?thesis by auto
next
  case False
  have "list_all (\<lambda>k. row_u8 W (transposed W table) k + 0 \<le> length (data (transposed W table)))
          [0..<num_writers st]"
    if "num_writers st \<le> num_minor_bits_padded W table"
    using that by (rule transposed_rows_in_range) simp
  moreover have "recorded (st\<lparr>journal := journal st @ map (\<lambda>k. (k, WriteBytes [])) [0..<num_writers st]\<rparr>) k
      = recorded st k" for k
    by (simp add: recorded_def received_fan_out)
  ultimately show ?thesis
    using False by (auto simp: batch_write_bytes_serial_eq sample_count_def split: if_splits)
qed

text \<open>
  C9. The dispatch on the format is a test for equality with the packed format: under
  every other value of \<open>output_format\<close>, SERIAL or not, \<^verbatim>\<open>batch_write_bit\<close> makes one per-bit
  call per writer, and \<^verbatim>\<open>batch_write_bytes\<close> transposes the table and makes one bulk append
  per writer from the transposed rows.
\<close>

theorem format_dispatch_is_two_way:
  assumes "output_format st \<noteq> SAMPLE_FORMAT_PTB64"
  shows "batch_write_bit st bits =
      (if num_writers st \<le> 8 * length bits
       then Inr (st\<lparr>journal := journal st @
                   map (\<lambda>k. (k, WriteBit (bit (bits ! (k div 8)) (k mod 8)))) [0..<num_writers st]\<rparr>)
       else Inl OutOfBounds)
    \<and> batch_write_bytes W st table num_major_u64 =
      (if list_all (\<lambda>k. row_u8 W (transposed W table) k + num_major_u64 * 8
                       \<le> length (data (transposed W table))) [0..<num_writers st]
       then Inr (st\<lparr>journal := journal st @
              map (\<lambda>k. (k, WriteBytes (take (num_major_u64 * 8)
                            (drop (row_u8 W (transposed W table) k) (data (transposed W table))))))
                  [0..<num_writers st]\<rparr>)
       else Inl OutOfBounds)"
  using assms batch_write_bit_serial_eq batch_write_bytes_serial_eq by simp

subsection \<open>Concrete runs of \<^verbatim>\<open>batch_write_bytes\<close>\<close>

theorem batch_write_bytes_serial_one_append_per_writer_witness:
  "batch_write_bytes 64 \<lparr>output_format = SAMPLE_FORMAT_SERIAL, num_writers = 2, journal = []\<rparr>
      \<lparr>num_simd_words_major = 1, num_simd_words_minor = 1,
       data = replicate 8 1 @ replicate 504 0\<rparr> 1 =
     Inr \<lparr>output_format = SAMPLE_FORMAT_SERIAL, num_writers = 2,
          journal = [(0, WriteBytes [1, 0, 0, 0, 0, 0, 0, 0]),
                     (1, WriteBytes [0, 0, 0, 0, 0, 0, 0, 0])]\<rparr>"
proof -
  let ?T = "\<lparr>num_simd_words_major = 1, num_simd_words_minor = 1,
       data = replicate 8 (1 :: byte) @ replicate 504 0\<rparr>"
  have row: "take (1 * 8) (drop (row_u8 64 (transposed 64 ?T) k) (data (transposed 64 ?T))) =
      map (\<lambda>b. byte_of_bits (map (\<lambda>j. table_bit 64 ?T (8 * b + j) k) [0..<8])) [0..<1 * 8]"
    if "k < 2" for k
    by (rule transposed_row) (use that in \<open>simp_all add: num_minor_bits_padded_def num_major_u8_padded_def\<close>)
  have r0: "take (1 * 8) (drop (row_u8 64 (transposed 64 ?T) 0) (data (transposed 64 ?T))) = [1, 0, 0, 0, 0, 0, 0, 0]"
  proof -
    have "take (1 * 8) (drop (row_u8 64 (transposed 64 ?T) 0) (data (transposed 64 ?T))) =
      map (\<lambda>b. byte_of_bits (map (\<lambda>j. table_bit 64 ?T (8 * b + j) 0) [0..<8])) [0..<1 * 8]"
      by (rule row) simp
    also have "\<dots> = [1, 0, 0, 0, 0, 0, 0, 0]"
      by (simp add: upt_rec byte_of_bits_def table_bit_def num_minor_u8_padded_def nth_append)
    finally show ?thesis .
  qed
  have r1: "take (1 * 8) (drop (row_u8 64 (transposed 64 ?T) 1) (data (transposed 64 ?T))) = [0, 0, 0, 0, 0, 0, 0, 0]"
  proof -
    have "take (1 * 8) (drop (row_u8 64 (transposed 64 ?T) 1) (data (transposed 64 ?T))) =
      map (\<lambda>b. byte_of_bits (map (\<lambda>j. table_bit 64 ?T (8 * b + j) 1) [0..<8])) [0..<1 * 8]"
      by (rule row) simp
    also have "\<dots> = [0, 0, 0, 0, 0, 0, 0, 0]"
      by (simp add: upt_rec byte_of_bits_def table_bit_def num_minor_u8_padded_def nth_append)
    finally show ?thesis .
  qed
  have upt2: "[0..<2] = [0, Suc 0]" by (simp add: upt_rec)
  from batch_write_bytes_serial_one_append_per_writer
    [of "\<lparr>output_format = SAMPLE_FORMAT_SERIAL, num_writers = 2, journal = []\<rparr>" 64 ?T 1, THEN conjunct1]
  have "batch_write_bytes 64 \<lparr>output_format = SAMPLE_FORMAT_SERIAL, num_writers = 2, journal = []\<rparr> ?T 1 =
    Inr \<lparr>output_format = SAMPLE_FORMAT_SERIAL, num_writers = 2,
          journal = [(0, WriteBytes (take (1 * 8) (drop (row_u8 64 (transposed 64 ?T) 0) (data (transposed 64 ?T))))),
                     (1, WriteBytes (take (1 * 8) (drop (row_u8 64 (transposed 64 ?T) 1) (data (transposed 64 ?T)))))]\<rparr>"
    by (simp add: num_minor_bits_padded_def num_major_u8_padded_def upt2)
  then show ?thesis unfolding r0 r1 .
qed

theorem batch_write_bytes_zero_blocks_witness:
  "batch_write_bytes 64 \<lparr>output_format = SAMPLE_FORMAT_PTB64, num_writers = 2, journal = []\<rparr>
      \<lparr>num_simd_words_major = 1, num_simd_words_minor = 1, data = replicate 512 255\<rparr> 0 =
     Inr \<lparr>output_format = SAMPLE_FORMAT_PTB64, num_writers = 2, journal = []\<rparr>
   \<and> batch_write_bytes 64 \<lparr>output_format = SAMPLE_FORMAT_SERIAL, num_writers = 2, journal = []\<rparr>
      \<lparr>num_simd_words_major = 1, num_simd_words_minor = 1, data = replicate 512 255\<rparr> 0 =
     Inr \<lparr>output_format = SAMPLE_FORMAT_SERIAL, num_writers = 2,
          journal = [(0, WriteBytes []), (1, WriteBytes [])]\<rparr>
   \<and> recorded \<lparr>output_format = SAMPLE_FORMAT_SERIAL, num_writers = 2,
          journal = [(0, WriteBytes []), (1, WriteBytes [])]\<rparr> 1 = []"
proof -
  let ?T = "\<lparr>num_simd_words_major = 1, num_simd_words_minor = 1, data = replicate 512 (255 :: byte)\<rparr>"
  let ?P = "\<lparr>output_format = SAMPLE_FORMAT_PTB64, num_writers = 2, journal = []\<rparr>"
  let ?S = "\<lparr>output_format = SAMPLE_FORMAT_SERIAL, num_writers = 2, journal = []\<rparr>"
  let ?S' = "\<lparr>output_format = SAMPLE_FORMAT_SERIAL, num_writers = 2,
          journal = [(0, WriteBytes []), (1, WriteBytes [])]\<rparr>"
  have p: "batch_write_bytes 64 ?P ?T 0 = Inr ?P"
    using batch_write_bytes_zero_blocks [of ?P 64 ?T] by simp
  have s: "batch_write_bytes 64 ?S ?T 0 = Inr ?S'"
    by (simp add: batch_write_bytes_serial_eq upt_rec row_u8_def length_data_transposed
        num_minor_u8_padded_transposed num_major_u8_padded_def num_minor_bits_padded_def)
  have "recorded ?S' 1 = recorded ?S 1"
    using batch_write_bytes_zero_blocks [of ?S 64 ?T] s by simp
  then have "recorded ?S' 1 = []" by (simp add: recorded_def received_def)
  with p s show ?thesis by simp
qed

theorem format_dispatch_is_two_way_witness:
  "batch_write_bit \<lparr>output_format = SAMPLE_FORMAT_OTHER 0, num_writers = 2, journal = []\<rparr>
       [2, 0, 0, 0, 0, 0, 0, 0] =
   Inr \<lparr>output_format = SAMPLE_FORMAT_OTHER 0, num_writers = 2,
        journal = [(0, WriteBit False), (1, WriteBit True)]\<rparr>"
  using format_dispatch_is_two_way
    [of "\<lparr>output_format = SAMPLE_FORMAT_OTHER 0, num_writers = 2, journal = []\<rparr>"
        "[2, 0, 0, 0, 0, 0, 0, 0]", THEN conjunct1]
  by (simp add: upt_rec)

section \<open>Row by row against one bulk call\<close>

lemma run_ops_append:
  "run_ops st (xs @ ys) = (case run_ops st xs of Inl e \<Rightarrow> Inl e | Inr s \<Rightarrow> run_ops s ys)"
  by (simp add: run_ops_def for_each_append split: sum.splits)

lemma run_ops_single: "run_ops st [x] = run_op st x"
  by (simp add: run_ops_def split: sum.splits)

lemma run_bit_rows_ptb64:
  assumes "output_format st = SAMPLE_FORMAT_PTB64"
    and "\<And>row. row \<in> set rows \<Longrightarrow> 8 * num_writers st \<le> length row"
  shows "run_ops st (map Batch_write_bit rows) =
    Inr (st\<lparr>journal := journal st @
           concat (map (\<lambda>row. map (\<lambda>k. (k, WriteBytes (take 8 (drop (8 * k) row)))) [0..<num_writers st]) rows)\<rparr>)"
  using assms
proof (induction rows rule: rev_induct)
  case Nil
  then show ?case by (simp add: run_ops_def)
next
  case (snoc row rows)
  then show ?case
    by (simp add: run_ops_append run_ops_single batch_write_bit_ptb64_eq)
qed

lemma bit_table_row:
  assumes "Suc m * num_minor_u8_padded W t \<le> length (data t)" and "k div 8 < num_minor_u8_padded W t"
  shows "bit (table_row W t m ! (k div 8)) (k mod 8) = table_bit W t m k"
proof -
  have "m * num_minor_u8_padded W t + k div 8 < length (data t)"
    using assms by simp
  then show ?thesis
    using assms(2) by (simp add: table_row_def table_bit_def row_u8_def)
qed

lemma length_table_row:
  assumes "Suc m * num_minor_u8_padded W t \<le> length (data t)"
  shows "length (table_row W t m) = num_minor_u8_padded W t"
  using assms by (simp add: table_row_def row_u8_def)

lemma run_bit_rows_serial:
  assumes "output_format st \<noteq> SAMPLE_FORMAT_PTB64"
    and "num_writers st \<le> 8 * num_minor_u8_padded W t"
    and "M * num_minor_u8_padded W t \<le> length (data t)"
  shows "\<exists>st'. run_ops st (map (\<lambda>m. Batch_write_bit (table_row W t m)) [0..<M]) = Inr st'
      \<and> output_format st' = output_format st \<and> num_writers st' = num_writers st
      \<and> (\<forall>k<num_writers st. recorded st' k = recorded st k @ map (\<lambda>m. table_bit W t m k) [0..<M])"
  using assms(3)
proof (induction M)
  case 0
  then show ?case by (simp add: run_ops_def)
next
  case (Suc M)
  from Suc.prems have rows: "M * num_minor_u8_padded W t \<le> length (data t)" by simp
  from Suc.IH [OF rows] obtain s where s:
    "run_ops st (map (\<lambda>m. Batch_write_bit (table_row W t m)) [0..<M]) = Inr s"
    "output_format s = output_format st" "num_writers s = num_writers st"
    "\<And>k. k < num_writers st \<Longrightarrow> recorded s k = recorded st k @ map (\<lambda>m. table_bit W t m k) [0..<M]"
    by blast
  have len: "length (table_row W t M) = num_minor_u8_padded W t"
    using Suc.prems by (rule length_table_row)
  have fmt: "output_format s \<noteq> SAMPLE_FORMAT_PTB64" using s(2) assms(1) by simp
  have fits: "num_writers s \<le> 8 * length (table_row W t M)"
    using s(3) assms(2) len by simp
  let ?s' = "s\<lparr>journal := journal s @
       map (\<lambda>k. (k, WriteBit (bit (table_row W t M ! (k div 8)) (k mod 8)))) [0..<num_writers s]\<rparr>"
  have step: "batch_write_bit s (table_row W t M) = Inr ?s'"
    using fits by (simp only: batch_write_bit_serial_eq [OF fmt] if_True)
  have "recorded ?s' k = recorded st k @ map (\<lambda>m. table_bit W t m k) [0..<Suc M]"
    if k: "k < num_writers st" for k
  proof -
    from k assms(2) have "k div 8 < num_minor_u8_padded W t" by (simp add: less_mult_imp_div_less mult.commute)
    with Suc.prems have "bit (table_row W t M ! (k div 8)) (k mod 8) = table_bit W t M k"
      by (rule bit_table_row)
    with k s(3) s(4) [OF k] show ?thesis
      by (simp add: recorded_def received_fan_out)
  qed
  moreover have "run_ops st (map (\<lambda>m. Batch_write_bit (table_row W t m)) [0..<Suc M]) = Inr ?s'"
    using s(1) step by (simp add: run_ops_append run_ops_single)
  ultimately show ?case using s(2,3) by simp
qed

text \<open>
  On the transposing branch the two entry points agree: for every format other than the
  packed one, \<open>64 * n\<close> calls of \<^verbatim>\<open>batch_write_bit\<close> on the rows \<open>0, \<dots>, 64 * n - 1\<close> of a
  table leave every writer with the same recorded samples as one call
  \<^verbatim>\<open>batch_write_bytes(table, n)\<close>.
\<close>

lemma bit_rows_equal_bulk_serial:
  assumes "output_format st \<noteq> SAMPLE_FORMAT_PTB64"
    and "num_writers st \<le> 8 * num_minor_u8_padded W t"
    and "num_writers st \<le> num_minor_bits_padded W t"
    and "n * 8 \<le> num_major_u8_padded W t"
    and "(n * 64) * num_minor_u8_padded W t \<le> length (data t)"
  shows "\<exists>s1 s2. run_ops st (map (\<lambda>m. Batch_write_bit (table_row W t m)) [0..<n * 64]) = Inr s1
      \<and> batch_write_bytes W st t n = Inr s2
      \<and> (\<forall>k<num_writers st. recorded s1 k = recorded s2 k)"
proof -
  from run_bit_rows_serial [OF assms(1,2,5)] obtain s1 where s1:
    "run_ops st (map (\<lambda>m. Batch_write_bit (table_row W t m)) [0..<n * 64]) = Inr s1"
    "\<And>k. k < num_writers st \<Longrightarrow> recorded s1 k = recorded st k @ map (\<lambda>m. table_bit W t m k) [0..<n * 64]"
    by blast
  let ?run = "\<lambda>k. take (n * 8) (drop (row_u8 W (transposed W t) k) (data (transposed W t)))"
  let ?s2 = "st\<lparr>journal := journal st @ map (\<lambda>k. (k, WriteBytes (?run k))) [0..<num_writers st]\<rparr>"
  have ok: "list_all (\<lambda>k. row_u8 W (transposed W t) k + n * 8 \<le> length (data (transposed W t)))
              [0..<num_writers st]"
    using assms(3,4) by (rule transposed_rows_in_range)
  have s2: "batch_write_bytes W st t n = Inr ?s2"
    using ok by (simp only: batch_write_bytes_serial_eq [OF assms(1)] if_True)
  have "recorded s1 k = recorded ?s2 k" if k: "k < num_writers st" for k
  proof -
    from k assms(3) have "k < num_minor_bits_padded W t" by simp
    then have "samples (WriteBytes (?run k)) = map (\<lambda>j. table_bit W t j k) [0..<8 * (n * 8)]"
      using assms(4) by (rule samples_transposed_row)
    moreover have "8 * (n * 8) = n * 64" by simp
    ultimately have "samples (WriteBytes (?run k)) = map (\<lambda>j. table_bit W t j k) [0..<n * 64]"
      by (simp only:)
    with k s1(2) [OF k] show ?thesis
      by (simp add: recorded_def received_fan_out del: samples.simps)
  qed
  with s1(1) s2 show ?thesis by blast
qed

text \<open>
  C5, on the packed branch. The spec says that 64 consecutive \<^verbatim>\<open>batch_write_bit\<close> calls
  and one \<^verbatim>\<open>batch_write_bytes\<close> call with \<open>num_major_u64 = 1\<close> over the same 64 rows give
  every writer the same output. With one writer, \<open>W = 64\<close> and a table of 64 rows of eight
  bytes, the 64 row calls hand writer 0 sixty-four groups of eight bytes (4096 samples);
  the bulk call reads row 0 only and hands it one group (64 samples).
\<close>

theorem batch_write_bytes_ptb64_one_row_per_block:
  "map_sum id (\<lambda>s. received s 0)
      (run_ops \<lparr>output_format = SAMPLE_FORMAT_PTB64, num_writers = 1, journal = []\<rparr>
         (map (\<lambda>m. Batch_write_bit
                 (table_row 64 \<lparr>num_simd_words_major = 1, num_simd_words_minor = 1, data = replicate 512 255\<rparr> m))
              [0..<64])) =
     Inr (replicate 64 (WriteBytes (replicate 8 255)))
   \<and> map_sum id (\<lambda>s. received s 0)
      (batch_write_bytes 64 \<lparr>output_format = SAMPLE_FORMAT_PTB64, num_writers = 1, journal = []\<rparr>
         \<lparr>num_simd_words_major = 1, num_simd_words_minor = 1, data = replicate 512 255\<rparr> 1) =
     Inr [WriteBytes (replicate 8 255)]
   \<and> length (concat (map samples (replicate 64 (WriteBytes (replicate 8 255))))) = 4096
   \<and> length (concat (map samples [WriteBytes (replicate 8 255)])) = 64"
proof -
  let ?T = "\<lparr>num_simd_words_major = 1, num_simd_words_minor = 1, data = replicate 512 (255 :: byte)\<rparr>"
  let ?S = "\<lparr>output_format = SAMPLE_FORMAT_PTB64, num_writers = 1, journal = []\<rparr>"
  have row: "table_row 64 ?T m = replicate 8 255" if "m < 64" for m
    using that by (simp add: table_row_def row_u8_def num_minor_u8_padded_def min_def)
  then have rows: "map (table_row 64 ?T) [0..<64] = replicate 64 (replicate 8 255)"
    by (simp add: list_eq_iff_nth_eq)
  have "run_ops ?S (map Batch_write_bit (map (table_row 64 ?T) [0..<64])) =
    Inr (?S\<lparr>journal := journal ?S @
           concat (map (\<lambda>row. map (\<lambda>k. (k, WriteBytes (take 8 (drop (8 * k) row)))) [0..<num_writers ?S])
                       (map (table_row 64 ?T) [0..<64]))\<rparr>)"
  proof (rule run_bit_rows_ptb64)
    show "output_format ?S = SAMPLE_FORMAT_PTB64" by simp
  next
    fix r assume "r \<in> set (map (table_row 64 ?T) [0..<64])"
    then obtain m where "m < 64" and "r = table_row 64 ?T m" by auto
    then show "8 * num_writers ?S \<le> length r" by (simp only: row) simp
  qed
  moreover have "map (\<lambda>m. Batch_write_bit (table_row 64 ?T m)) [0..<64] =
      map Batch_write_bit (map (table_row 64 ?T) [0..<64])"
    by (simp add: comp_def)
  ultimately have a: "map_sum id (\<lambda>s. received s 0)
      (run_ops ?S (map (\<lambda>m. Batch_write_bit (table_row 64 ?T m)) [0..<64])) =
     Inr (replicate 64 (WriteBytes (replicate 8 255)))"
    unfolding rows by (simp add: comp_def received_def map_replicate_const)
  have b: "map_sum id (\<lambda>s. received s 0) (batch_write_bytes 64 ?S ?T 1) = Inr [WriteBytes (replicate 8 255)]"
    by (simp add: batch_write_bytes_ptb64_eq num_minor_u8_padded_def received_def)
  have c: "length (concat (map samples (replicate 64 (WriteBytes (replicate 8 255))))) = 4096"
    by (simp add: length_concat sum_list_replicate samples_bytes_length del: samples.simps)
  have d: "length (concat (map samples [WriteBytes (replicate 8 255)])) = 64"
    by (simp add: samples_bytes_length del: samples.simps)
  from a b c d show ?thesis by (simp only: simp_thms)
qed

section \<open>The final concatenation\<close>

lemma framed_from_snoc:
  "framed_from emit seen (cs @ [c]) = framed_from emit seen cs @ emit (seen @ cs) c"
  by (induction cs arbitrary: seen) simp_all

lemma framed_snoc: "framed emit (cs @ [c]) = framed emit cs @ emit cs c"
  by (simp add: framed_def framed_from_snoc)

lemma fold_copy_out:
  "fold (\<lambda>f s. s\<lparr>out := out s @ f\<rparr>) xs s = s\<lparr>out := out s @ concat xs\<rparr>"
  by (induction xs arbitrary: s) simp_all

lemma fan_out_indices: "list_all (\<lambda>e. fst e < N) (map (\<lambda>k. (k, f k)) [0..<N])"
  by (simp add: list_all_iff)

lemma nested_fan_out_indices:
  "list_all (\<lambda>e. fst e < N) (concat (map (\<lambda>k. map (\<lambda>w. (k, f k w)) ws) [0..<N]))"
  by (auto simp: list_all_iff)

text \<open>
  The channels after the calls of a journal, all on writers that exist: every channel
  holds what its writer alone would have written.
\<close>

lemma fold_deliver:
  assumes "list_all (\<lambda>e. fst e < N) J"
  shows "fold (deliver emit) J (open_files N) =
    \<lparr>out = (if N = 0 then [] else framed emit (map snd (filter (\<lambda>e. fst e = 0) J))),
     temporary_files = map (\<lambda>k. framed emit (map snd (filter (\<lambda>e. fst e = k) J))) [1..<N],
     writers = map (\<lambda>k. map snd (filter (\<lambda>e. fst e = k) J)) [0..<N]\<rparr>"
  using assms
proof (induction J rule: rev_induct)
  case Nil
  show ?case
    by (simp add: open_files_def framed_def map_replicate_const)
next
  case (snoc e J)
  obtain k c where e: "e = (k, c)" by (cases e)
  with snoc.prems have k: "k < N" by simp
  let ?calls = "\<lambda>J k. map snd (filter (\<lambda>e. fst e = k) J)"
  define fs where "fs = fold (deliver emit) J (open_files N)"
  from snoc have IH: "fs =
    \<lparr>out = (if N = 0 then [] else framed emit (?calls J 0)),
     temporary_files = map (\<lambda>k. framed emit (?calls J k)) [1..<N],
     writers = map (?calls J) [0..<N]\<rparr>"
    by (simp add: fs_def)
  have same: "?calls (J @ [(k, c)]) i = ?calls J i" if "i \<noteq> k" for i
    using that by simp
  have here: "?calls (J @ [(k, c)]) k = ?calls J k @ [c]"
    by simp
  have lenw: "length (writers fs) = N" and wk: "writers fs ! k = ?calls J k"
    using k by (simp_all add: IH)
  have w: "map (?calls (J @ [(k, c)])) [0..<N] = (writers fs)[k := writers fs ! k @ [c]]"
  proof (rule nth_equalityI)
    show "length (map (?calls (J @ [(k, c)])) [0..<N]) = length ((writers fs)[k := writers fs ! k @ [c]])"
      by (simp add: lenw)
  next
    fix i assume "i < length (map (?calls (J @ [(k, c)])) [0..<N])"
    then have i: "i < N" by simp
    show "map (?calls (J @ [(k, c)])) [0..<N] ! i = (writers fs)[k := writers fs ! k @ [c]] ! i"
    proof (cases "i = k")
      case True
      with k show ?thesis by (simp only: nth_map_upt [of k N 0] nth_list_update_eq lenw here wk) simp
    next
      case False
      with i have "writers fs ! i = ?calls J i" by (simp add: IH)
      with False i show ?thesis
        by (simp only: nth_list_update_neq [OF False [symmetric]] same [OF False]) simp
    qed
  qed
  have o: "(if N = 0 then [] else framed emit (?calls (J @ [(k, c)]) 0)) =
           (if k = 0 then out fs @ emit (writers fs ! k) c else out fs)"
  proof (cases "k = 0")
    case True
    with k have "framed emit (?calls (J @ [(k, c)]) 0) = out fs @ emit (writers fs ! k) c"
      unfolding True here [unfolded True] wk [unfolded True] by (simp add: IH framed_snoc)
    with True k show ?thesis by simp
  next
    case False
    then have "?calls (J @ [(k, c)]) 0 = ?calls J 0" by (intro same) simp
    with False k show ?thesis by (simp add: IH)
  qed
  have t: "map (\<lambda>i. framed emit (?calls (J @ [(k, c)]) i)) [1..<N] =
           (if k = 0 then temporary_files fs
            else (temporary_files fs)[k - 1 := temporary_files fs ! (k - 1) @ emit (writers fs ! k) c])"
  proof (cases "k = 0")
    case True
    have "map (\<lambda>i. framed emit (?calls (J @ [(k, c)]) i)) [1..<N] =
          map (\<lambda>i. framed emit (?calls J i)) [1..<N]"
    proof (rule map_cong [OF refl])
      fix i assume "i \<in> set [1..<N]"
      then have "i \<noteq> k" using True by simp
      then show "framed emit (?calls (J @ [(k, c)]) i) = framed emit (?calls J i)"
        by (rule arg_cong [OF same])
    qed
    with True show ?thesis by (simp add: IH)
  next
    case False
    have "map (\<lambda>i. framed emit (?calls (J @ [(k, c)]) i)) [1..<N] =
          (temporary_files fs)[k - 1 := temporary_files fs ! (k - 1) @ emit (writers fs ! k) c]"
    proof (rule nth_equalityI)
      show "length (map (\<lambda>i. framed emit (?calls (J @ [(k, c)]) i)) [1..<N]) =
            length ((temporary_files fs)[k - 1 := temporary_files fs ! (k - 1) @ emit (writers fs ! k) c])"
        by (simp add: IH)
    next
      fix i assume "i < length (map (\<lambda>i. framed emit (?calls (J @ [(k, c)]) i)) [1..<N])"
      then have i: "i < N - 1" by simp
      then have nth: "[1..<N] ! i = Suc i" by simp
      have ti: "temporary_files fs ! i = framed emit (?calls J (Suc i))"
        using i by (simp add: IH)
      show "map (\<lambda>i. framed emit (?calls (J @ [(k, c)]) i)) [1..<N] ! i =
            (temporary_files fs)[k - 1 := temporary_files fs ! (k - 1) @ emit (writers fs ! k) c] ! i"
      proof (cases "i = k - 1")
        case True
        with False have ki: "Suc i = k" by simp
        have "map (\<lambda>i. framed emit (?calls (J @ [(k, c)]) i)) [1..<N] ! i =
              framed emit (?calls (J @ [(k, c)]) k)"
          using i ki by simp
        also have "\<dots> = framed emit (?calls J k) @ emit (?calls J k) c"
          unfolding here by (rule framed_snoc)
        also have "\<dots> = temporary_files fs ! (k - 1) @ emit (writers fs ! k) c"
          using ti True ki wk by simp
        also have "\<dots> = (temporary_files fs)[k - 1 := temporary_files fs ! (k - 1) @ emit (writers fs ! k) c] ! i"
          using i True by (simp add: IH)
        finally show ?thesis .
      next
        case neq: False
        with False have ki: "Suc i \<noteq> k" by auto
        have "map (\<lambda>i. framed emit (?calls (J @ [(k, c)]) i)) [1..<N] ! i =
              framed emit (?calls (J @ [(k, c)]) (Suc i))"
          using i by simp
        also have "\<dots> = framed emit (?calls J (Suc i))"
          by (simp only: same [OF ki])
        also have "\<dots> = (temporary_files fs)[k - 1 := temporary_files fs ! (k - 1) @ emit (writers fs ! k) c] ! i"
          using neq ti by simp
        finally show ?thesis .
      qed
    qed
    with False show ?thesis by simp
  qed
  have "deliver emit (k, c) fs =
    \<lparr>out = (if N = 0 then [] else framed emit (?calls (J @ [(k, c)]) 0)),
     temporary_files = map (\<lambda>i. framed emit (?calls (J @ [(k, c)]) i)) [1..<N],
     writers = map (?calls (J @ [(k, c)])) [0..<N]\<rparr>"
    unfolding o t w using k by (cases fs) (simp add: deliver_def Let_def lenw [symmetric])
  then show ?case unfolding e by (simp add: fs_def)
qed

lemma out_write_end:
  assumes "list_all (\<lambda>e. fst e < N) J"
  shows "out (write_end emit (fold (deliver emit) J (open_files N))) =
    concat (map (\<lambda>k. framed emit (map snd (filter (\<lambda>e. fst e = k) J) @ [WriteEnd])) [0..<N])"
proof -
  let ?calls = "\<lambda>J k. map snd (filter (\<lambda>e. fst e = k) J)"
  let ?ends = "map (\<lambda>k. (k, WriteEnd)) [0..<N]"
  have len: "length (writers (fold (deliver emit) J (open_files N))) = N"
    by (simp add: fold_deliver [OF assms])
  have all: "list_all (\<lambda>e. fst e < N) (J @ ?ends)"
    using assms by (simp add: fan_out_indices)
  have calls: "?calls (J @ ?ends) k = ?calls J k @ [WriteEnd]" if "k < N" for k
    using that by (simp add: filter_fan_out)
  have "fold (deliver emit) ?ends (fold (deliver emit) J (open_files N)) =
        fold (deliver emit) (J @ ?ends) (open_files N)"
    by simp
  also note fold_deliver [OF all]
  finally have fs1: "fold (deliver emit) ?ends (fold (deliver emit) J (open_files N)) =
    \<lparr>out = (if N = 0 then [] else framed emit (?calls (J @ ?ends) 0)),
     temporary_files = map (\<lambda>k. framed emit (?calls (J @ ?ends) k)) [1..<N],
     writers = map (?calls (J @ ?ends)) [0..<N]\<rparr>" .
  have "out (write_end emit (fold (deliver emit) J (open_files N))) =
      (if N = 0 then [] else framed emit (?calls (J @ ?ends) 0)) @
      concat (map (\<lambda>k. framed emit (?calls (J @ ?ends) k)) [1..<N])"
    unfolding write_end_def len Let_def fs1 by (simp add: fold_copy_out)
  also have "\<dots> = concat (map (\<lambda>k. framed emit (?calls (J @ ?ends) k)) [0..<N])"
    by (cases N) (simp_all add: upt_conv_Cons del: upt_Suc)
  also have "\<dots> = concat (map (\<lambda>k. framed emit (?calls J k @ [WriteEnd])) [0..<N])"
  proof -
    have "map (\<lambda>k. framed emit (?calls (J @ ?ends) k)) [0..<N] =
          map (\<lambda>k. framed emit (?calls J k @ [WriteEnd])) [0..<N]"
      by (rule map_cong) (simp_all only: calls set_upt atLeastLessThan_iff)
    then show ?thesis by (simp only:)
  qed
  finally show ?thesis .
qed

subsection \<open>Every call is on a writer that exists\<close>

lemma run_op_journal:
  assumes "run_op st op = Inr st'" and "list_all (\<lambda>e. fst e < num_writers st) (journal st)"
  shows "num_writers st' = num_writers st \<and> output_format st' = output_format st
       \<and> list_all (\<lambda>e. fst e < num_writers st') (journal st')"
proof (cases op)
  case (Begin_result_type c)
  with assms show ?thesis by (auto simp: begin_result_type_def fan_out_indices)
next
  case (Batch_write_bit bits)
  show ?thesis
  proof (cases "output_format st = SAMPLE_FORMAT_PTB64")
    case True
    with assms Batch_write_bit show ?thesis
      by (auto simp: batch_write_bit_ptb64_eq fan_out_indices split: if_splits)
  next
    case False
    with assms Batch_write_bit show ?thesis
      by (auto simp: batch_write_bit_serial_eq fan_out_indices split: if_splits)
  qed
next
  case (Batch_write_bytes W table n)
  show ?thesis
  proof (cases "output_format st = SAMPLE_FORMAT_PTB64")
    case True
    with assms Batch_write_bytes show ?thesis
      by (auto simp: batch_write_bytes_ptb64_eq nested_fan_out_indices split: if_splits)
  next
    case False
    with assms Batch_write_bytes show ?thesis
      by (auto simp: batch_write_bytes_serial_eq fan_out_indices split: if_splits)
  qed
qed

lemma run_ops_journal:
  assumes "run_ops st ops = Inr st'" and "list_all (\<lambda>e. fst e < num_writers st) (journal st)"
  shows "num_writers st' = num_writers st \<and> list_all (\<lambda>e. fst e < num_writers st') (journal st')"
  using assms
proof (induction ops arbitrary: st)
  case Nil
  then show ?case by (simp add: run_ops_def)
next
  case (Cons op ops)
  from Cons.prems(1) obtain s where s: "run_op st op = Inr s" "run_ops s ops = Inr st'"
    by (auto simp: run_ops_def split: sum.splits)
  note r = run_op_journal [OF s(1) Cons.prems(2)]
  from Cons.IH [OF s(2) r [THEN conjunct2, THEN conjunct2]]
  show ?case unfolding r [THEN conjunct1] .
qed

text \<open>
  C1. For every number of writers, every format, every framing of the single-stream writers
  and every sequence of section tags, single-row calls and bulk calls, the bytes on the
  output channel after \<^verbatim>\<open>write_end\<close> are those of the reference that lets all writers write
  to separate buffers and concatenates the buffers afterwards; with at least one writer
  they are writer 0's own bytes followed, in ascending writer order, by the bytes of the
  writers \<open>1, \<dots>, N - 1\<close>. A sequence that leaves a buffer faults in both alike.
\<close>

theorem write_end_output_is_concatenation:
  "batch_output emit fmt N ops = reference_output emit fmt N ops
   \<and> (\<forall>st. run_ops (open_writer fmt N) ops = Inr st \<longrightarrow> 1 \<le> N \<longrightarrow>
         batch_output emit fmt N ops =
           Inr (framed emit (received st 0 @ [WriteEnd]) @
                concat (map (\<lambda>k. framed emit (received st k @ [WriteEnd])) [1..<N])))"
proof -
  have main: "batch_output emit fmt N ops =
          Inr (concat (map (\<lambda>k. framed emit (received st k @ [WriteEnd])) [0..<N]))"
    if run: "run_ops (open_writer fmt N) ops = Inr st" for st
  proof -
    have r: "num_writers st = num_writers (open_writer fmt N)
        \<and> list_all (\<lambda>e. fst e < num_writers st) (journal st)"
      using run by (rule run_ops_journal) (simp add: open_writer_def)
    have n: "num_writers st = N"
      using r [THEN conjunct1] by (simp add: open_writer_def)
    have "list_all (\<lambda>e. fst e < N) (journal st)"
      using r [THEN conjunct2] unfolding n .
    then show ?thesis
      using run by (simp add: batch_output_def out_write_end received_def)
  qed
  have "batch_output emit fmt N ops = reference_output emit fmt N ops"
  proof (cases "run_ops (open_writer fmt N) ops")
    case (Inl e)
    then show ?thesis by (simp add: batch_output_def reference_output_def)
  next
    case (Inr st)
    with main [OF Inr] show ?thesis by (simp add: reference_output_def)
  qed
  moreover have "batch_output emit fmt N ops =
           Inr (framed emit (received st 0 @ [WriteEnd]) @
                concat (map (\<lambda>k. framed emit (received st k @ [WriteEnd])) [1..<N]))"
    if "run_ops (open_writer fmt N) ops = Inr st" "1 \<le> N" for st
    using main [OF that(1)] that(2) by (cases N) (simp_all add: upt_conv_Cons del: upt_Suc)
  ultimately show ?thesis by blast
qed

theorem write_end_output_is_concatenation_witness:
  "batch_output framing_01 SAMPLE_FORMAT_SERIAL 2
      [Batch_write_bit [1, 0, 0, 0, 0, 0, 0, 0], Batch_write_bit [2, 0, 0, 0, 0, 0, 0, 0]] =
     Inr [49, 48, 10, 48, 49, 10]
   \<and> reference_output framing_01 SAMPLE_FORMAT_SERIAL 2
      [Batch_write_bit [1, 0, 0, 0, 0, 0, 0, 0], Batch_write_bit [2, 0, 0, 0, 0, 0, 0, 0]] =
     Inr [49, 48, 10, 48, 49, 10]"
proof -
  have run: "run_ops (open_writer SAMPLE_FORMAT_SERIAL 2)
      [Batch_write_bit [1, 0, 0, 0, 0, 0, 0, 0], Batch_write_bit [2, 0, 0, 0, 0, 0, 0, 0]] =
    Inr \<lparr>output_format = SAMPLE_FORMAT_SERIAL, num_writers = 2,
         journal = [(0, WriteBit True), (1, WriteBit False), (0, WriteBit False), (1, WriteBit True)]\<rparr>"
    by (simp add: run_ops_def open_writer_def batch_write_bit_serial_eq upt_rec)
  have "reference_output framing_01 SAMPLE_FORMAT_SERIAL 2
      [Batch_write_bit [1, 0, 0, 0, 0, 0, 0, 0], Batch_write_bit [2, 0, 0, 0, 0, 0, 0, 0]] =
     Inr [49, 48, 10, 48, 49, 10]"
    by (simp add: reference_output_def run received_def framed_def upt_rec)
  with write_end_output_is_concatenation
    [of framing_01 SAMPLE_FORMAT_SERIAL 2
        "[Batch_write_bit [1, 0, 0, 0, 0, 0, 0, 0], Batch_write_bit [2, 0, 0, 0, 0, 0, 0, 0]]"]
  show ?thesis by simp
qed

end
